theory Spec2Isabelle
  imports Main "HOL-Library.Word"
begin

unbundle bit_operations_syntax

section \<open>Modbus utilities: bit packing and checksums\<close>

text \<open>
  A shallow embedding of \<^verbatim>\<open>pymodbus/utilities.py\<close>. A Python 2 \<^verbatim>\<open>str\<close> is a
  sequence of 8-bit characters, modelled as a list of bytes; Python integers are
  unbounded and modelled as \<^typ>\<open>int\<close>; a raised exception is the left summand of the
  result.
\<close>

type_synonym byte = "8 word"

datatype error = IndexError | ValueError

subsection \<open>Built-ins used by the module\<close>

text \<open>\<^verbatim>\<open>ord(c)\<close>: the code of a character, between 0 and 255.\<close>

definition ord :: "byte \<Rightarrow> int" where
  "ord c = uint c"

text \<open>\<^verbatim>\<open>chr(n)\<close>: raises \<^verbatim>\<open>ValueError\<close> unless \<^verbatim>\<open>n\<close> is in \<^verbatim>\<open>range(256)\<close>.\<close>

definition chr :: "int \<Rightarrow> error + byte" where
  "chr n = (if 0 \<le> n \<and> n < 256 then Inr (word_of_int n) else Inl ValueError)"

text \<open>
  \<^verbatim>\<open>string[k]\<close>: a negative index counts from the end; an index outside the string
  raises \<^verbatim>\<open>IndexError\<close>.
\<close>

definition getitem :: "byte list \<Rightarrow> int \<Rightarrow> error + byte" where
  "getitem string k =
     (let j = (if k < 0 then int (length string) + k else k)
      in if 0 \<le> j \<and> j < int (length string) then Inr (string ! nat j)
         else Inl IndexError)"

subsection \<open>packBitsToString\<close>

text \<open>
  The loop \<^verbatim>\<open>for bit in bits\<close> over the state \<^verbatim>\<open>(ret, i, packed)\<close>.
\<close>

fun pack_loop :: "bool list \<Rightarrow> byte list \<Rightarrow> int \<Rightarrow> int \<Rightarrow> error + (byte list \<times> int \<times> int)" where
  "pack_loop [] ret i packed = Inr (ret, i, packed)"
| "pack_loop (b # bits) ret i packed =
     (let packed = (if b then packed + 128 else packed);
          i = i + 1
      in if i = 8 then
           (case chr packed of
              Inl e \<Rightarrow> Inl e
            | Inr c \<Rightarrow> pack_loop bits (ret @ [c]) 0 0)
         else pack_loop bits ret i (drop_bit 1 packed))"

definition packBitsToString :: "bool list \<Rightarrow> error + byte list" where
  "packBitsToString bits =
     (case pack_loop bits [] 0 0 of
        Inl e \<Rightarrow> Inl e
      | Inr (ret, i, packed) \<Rightarrow>
          if 0 < i \<and> i < 8 then
            (case chr (drop_bit (nat (7 - i)) packed) of
               Inl e \<Rightarrow> Inl e
             | Inr c \<Rightarrow> Inr (ret @ [c]))
          else Inr ret)"

subsection \<open>unpackBitsFromString\<close>

text \<open>The inner loop \<^verbatim>\<open>for bit in range(8)\<close> over \<^verbatim>\<open>(value, bits)\<close>.\<close>

fun unpack_bits :: "nat \<Rightarrow> int \<Rightarrow> bool list \<Rightarrow> bool list" where
  "unpack_bits 0 v bits = bits"
| "unpack_bits (Suc n) v bits = unpack_bits n (drop_bit 1 v) (bits @ [v AND 1 = 1])"

text \<open>The outer loop \<^verbatim>\<open>for byte in range(1, byte_count+1)\<close>, given the list of indices.\<close>

fun unpack_loop :: "int list \<Rightarrow> byte list \<Rightarrow> bool list \<Rightarrow> error + bool list" where
  "unpack_loop [] string bits = Inr bits"
| "unpack_loop (byte # rest) string bits =
     (case getitem string byte of
        Inl e \<Rightarrow> Inl e
      | Inr c \<Rightarrow> unpack_loop rest string (unpack_bits 8 (ord c) bits))"

definition unpackBitsFromString :: "byte list \<Rightarrow> error + (bool list \<times> int)" where
  "unpackBitsFromString string =
     (case getitem string 0 of
        Inl e \<Rightarrow> Inl e
      | Inr c \<Rightarrow>
          (let byte_count = ord c
           in case unpack_loop [1..byte_count] string [] of
                Inl e \<Rightarrow> Inl e
              | Inr bits \<Rightarrow> Inr (bits, byte_count)))"

subsection \<open>CRC16\<close>

text \<open>The inner loop \<^verbatim>\<open>for bit in range(8)\<close> of the table generator, over \<^verbatim>\<open>(byte, crc)\<close>.\<close>

fun crc16_entry_loop :: "nat \<Rightarrow> int \<Rightarrow> int \<Rightarrow> int" where
  "crc16_entry_loop 0 byte crc = crc"
| "crc16_entry_loop (Suc n) byte crc =
     (let crc = (if (byte XOR crc) AND 0x0001 \<noteq> 0 then drop_bit 1 crc XOR 0xa001
                 else drop_bit 1 crc)
      in crc16_entry_loop n (drop_bit 1 byte) crc)"

definition generate_crc16_table :: "int list" where
  "generate_crc16_table =
     fold (\<lambda>byte result. result @ [crc16_entry_loop 8 byte 0x0000]) [0..255] []"

definition crc16_table :: "int list" where
  "crc16_table = generate_crc16_table"

text \<open>
  The loop \<^verbatim>\<open>for a in data\<close> of \<^verbatim>\<open>computeCRC\<close>. The subscript of the table is
  masked with \<^verbatim>\<open>0xff\<close> and the table has 256 entries (lemmas
  \<open>table_index_range\<close> and \<open>length_crc16_table\<close> below), so it is always in range.
\<close>

fun crc_loop :: "byte list \<Rightarrow> int \<Rightarrow> int" where
  "crc_loop [] crc = crc"
| "crc_loop (a # data) crc =
     (let idx = crc16_table ! nat ((crc XOR ord a) AND 0xff)
      in crc_loop data ((drop_bit 8 crc AND 0xff) XOR idx))"

definition computeCRC :: "byte list \<Rightarrow> int" where
  "computeCRC data = crc_loop data 0xffff"

definition checkCRC :: "byte list \<Rightarrow> int \<Rightarrow> bool" where
  "checkCRC data check = (computeCRC data = check)"

subsection \<open>LRC\<close>

definition computeLRC :: "byte list \<Rightarrow> int" where
  "computeLRC data =
     (let lrc = sum_list (map ord data) AND 0xff;
          lrc = (lrc XOR 0xff) + 1
      in lrc)"

definition checkLRC :: "byte list \<Rightarrow> int \<Rightarrow> bool" where
  "checkLRC data check = (computeLRC data = check)"

subsection \<open>The bit-by-bit CRC16 of the specification\<close>

text \<open>
  The reference to compare \<^const>\<open>computeCRC\<close> with, written from the specification's
  words: the reflected CRC-16 with polynomial \<^verbatim>\<open>0xA001\<close>. One shift step looks at the
  low bit of the running value; a byte is XORed into the running value and shifted
  out in 8 steps; the running value starts at \<^verbatim>\<open>0xFFFF\<close>.
\<close>

definition crc16_shift :: "int \<Rightarrow> int" where
  "crc16_shift crc = (if crc AND 1 \<noteq> 0 then drop_bit 1 crc XOR 0xA001 else drop_bit 1 crc)"

fun crc16_bitwise :: "byte list \<Rightarrow> int \<Rightarrow> int" where
  "crc16_bitwise [] crc = crc"
| "crc16_bitwise (a # data) crc = crc16_bitwise data ((crc16_shift ^^ 8) (crc XOR ord a))"

definition crc16_reference :: "byte list \<Rightarrow> int" where
  "crc16_reference data = crc16_bitwise data 0xFFFF"

text \<open>One iteration of the loop of \<^const>\<open>crc_loop\<close>, named for the proofs.\<close>

definition crc_step :: "int \<Rightarrow> byte \<Rightarrow> int" where
  "crc_step crc a = (drop_bit 8 crc AND 0xff) XOR crc16_table ! nat ((crc XOR ord a) AND 0xff)"

subsection \<open>The packed layout of the specification\<close>

text \<open>
  The data bytes as the specification describes them, to compare
  \<^const>\<open>packBitsToString\<close> with: the bits are taken in groups of 8, and the value of
  a group has its first bit as the least-significant bit; a shorter last group is
  filled with zero bits at the top.
\<close>

fun group_value :: "bool list \<Rightarrow> int" where
  "group_value [] = 0"
| "group_value (b # bs) = (if b then 1 else 0) + 2 * group_value bs"

fun packed_bytes :: "bool list \<Rightarrow> byte list" where
  "packed_bytes bits =
     (if bits = [] then []
      else word_of_int (group_value (take 8 bits)) # packed_bytes (drop 8 bits))"

declare packed_bytes.simps [simp del]

text \<open>
  The part of \<^const>\<open>packBitsToString\<close> after its loop, on the loop's result, named
  for the proofs.
\<close>

definition pack_finish :: "error + (byte list \<times> int \<times> int) \<Rightarrow> error + byte list" where
  "pack_finish r =
     (case r of
        Inl e \<Rightarrow> Inl e
      | Inr (ret, i, packed) \<Rightarrow>
          if 0 < i \<and> i < 8 then
            (case chr (drop_bit (nat (7 - i)) packed) of
               Inl e \<Rightarrow> Inl e
             | Inr c \<Rightarrow> Inr (ret @ [c]))
          else Inr ret)"

section \<open>Unpacking\<close>

lemma getitem_in_range:
  "0 \<le> k \<Longrightarrow> k < int (length string) \<Longrightarrow> getitem string k = Inr (string ! nat k)"
  by (simp add: getitem_def)

lemma getitem_beyond:
  "int (length string) \<le> k \<Longrightarrow> getitem string k = Inl IndexError"
  by (simp add: getitem_def)

lemma low_bit_test: "((v::int) AND 1 = 1) = bit v 0"
  by (simp add: and_one_eq bit_0 odd_iff_mod_2_eq_one)

lemma unpack_bits_eq: "unpack_bits n v bits = bits @ map (bit v) [0..<n]"
proof (induction n arbitrary: v bits)
  case 0
  show ?case by simp
next
  case (Suc n)
  have "map (bit v) [0..<Suc n] = bit v 0 # map (bit v \<circ> Suc) [0..<n]"
    by (simp only: upt_conv_Cons [of 0 "Suc n"] zero_less_Suc list.map map_Suc_upt [symmetric] map_map)
  moreover have "map (bit v \<circ> Suc) [0..<n] = map (bit (drop_bit 1 v)) [0..<n]"
    by (simp add: bit_drop_bit_eq)
  ultimately show ?case
    by (simp add: Suc.IH low_bit_test)
qed

lemma bit_ord: "bit (ord c) k = bit c k"
  using bit_imp_le_length [of c k] by (auto simp: ord_def bit_uint_iff)

lemma unpack_byte_eq: "unpack_bits 8 (ord c) bits = bits @ map (bit c) [0..<8]"
  by (simp only: unpack_bits_eq bit_ord [abs_def])

lemma unpack_loop_in_range:
  "(\<And>i. i \<in> set idxs \<Longrightarrow> 0 \<le> i \<and> i < int (length string)) \<Longrightarrow>
   unpack_loop idxs string bits =
     Inr (bits @ concat (map (\<lambda>i. map (bit (string ! nat i)) [0..<8]) idxs))"
proof (induction idxs arbitrary: bits)
  case Nil
  show ?case by simp
next
  case (Cons i idxs)
  have i: "getitem string i = Inr (string ! nat i)"
    using Cons.prems [of i] by (simp add: getitem_in_range)
  have "unpack_loop (i # idxs) string bits =
        unpack_loop idxs string (bits @ map (bit (string ! nat i)) [0..<8])"
    by (simp only: unpack_loop.simps i sum.case unpack_byte_eq)
  also have "\<dots> = Inr ((bits @ map (bit (string ! nat i)) [0..<8])
                 @ concat (map (\<lambda>i. map (bit (string ! nat i)) [0..<8]) idxs))"
    using Cons.prems by (intro Cons.IH) simp
  finally show ?case by simp
qed

lemma unpack_loop_beyond:
  "i \<in> set idxs \<Longrightarrow> int (length string) \<le> i \<Longrightarrow>
   unpack_loop idxs string bits = Inl IndexError"
proof (induction idxs arbitrary: bits)
  case Nil
  then show ?case by simp
next
  case (Cons k idxs)
  show ?case
  proof (cases "getitem string k")
    case (Inl e)
    then have "e = IndexError"
      by (simp add: getitem_def Let_def split: if_splits)
    with Inl show ?thesis by simp
  next
    case (Inr c)
    then have "k \<noteq> i"
      using Cons.prems(2) by (auto simp: getitem_beyond)
    then have "i \<in> set idxs"
      using Cons.prems(1) by simp
    then show ?thesis
      using Inr Cons.IH Cons.prems(2) by simp
  qed
qed

lemma concat_frame_bytes:
  "concat (map (\<lambda>i. map (bit (string ! nat i)) [0..<8]) [1..int n]) =
   map (\<lambda>j. bit (string ! (1 + j div 8)) (j mod 8)) [0..<8 * n]"
proof (induction n)
  case 0
  show ?case by simp
next
  case (Suc n)
  have idx: "[1..int (Suc n)] = [1..int n] @ [int (Suc n)]"
    using upto_rec2 [of 1 "int (Suc n)"] by simp
  have "[0..<8 * n + 8] = [0..<8 * n] @ [8 * n..<8 * n + 8]"
    by (rule upt_add_eq_append) simp
  then have rng: "[0..<8 * Suc n] = [0..<8 * n] @ map (\<lambda>k. k + 8 * n) [0..<8]"
    by (simp add: map_add_upt add.commute)
  have last: "map (\<lambda>j. bit (string ! (1 + j div 8)) (j mod 8)) (map (\<lambda>k. k + 8 * n) [0..<8])
            = map (bit (string ! Suc n)) [0..<8]"
    by (simp only: map_map) (rule map_cong, simp_all)
  have ni: "nat (1 + int n) = Suc n"
    by simp
  show ?case
    by (simp only: idx rng map_append concat_append Suc.IH last nat_int) (simp add: ni)
qed


lemma ord_nonneg: "0 \<le> ord c"
  by (simp add: ord_def)

lemma getitem_first: "getitem (c # rest) 0 = Inr c"
  by (simp add: getitem_def)

lemma unpack_enough_bytes:
  assumes "ord c \<le> int (length rest)"
  shows "unpackBitsFromString (c # rest) =
         Inr (map (\<lambda>j. bit ((c # rest) ! (1 + j div 8)) (j mod 8)) [0..<8 * nat (ord c)], ord c)"
proof -
  have "unpack_loop [1..ord c] (c # rest) [] =
        Inr ([] @ concat (map (\<lambda>i. map (bit ((c # rest) ! nat i)) [0..<8]) [1..ord c]))"
    using assms by (intro unpack_loop_in_range) auto
  moreover have "[1..ord c] = [1..int (nat (ord c))]"
    by (simp add: ord_nonneg)
  ultimately have "unpack_loop [1..ord c] (c # rest) [] =
        Inr (map (\<lambda>j. bit ((c # rest) ! (1 + j div 8)) (j mod 8)) [0..<8 * nat (ord c)])"
    by (simp only: concat_frame_bytes append_Nil)
  then show ?thesis
    by (simp add: unpackBitsFromString_def getitem_first Let_def)
qed

lemma unpack_too_short:
  assumes "int (length rest) < ord c"
  shows "unpackBitsFromString (c # rest) = Inl IndexError"
proof -
  have "int (length (c # rest)) \<in> set [1..ord c]"
    using assms by simp
  then have "unpack_loop [1..ord c] (c # rest) [] = Inl IndexError"
    by (rule unpack_loop_beyond) simp
  then show ?thesis
    by (simp add: unpackBitsFromString_def getitem_first Let_def)
qed

lemma unpack_empty: "unpackBitsFromString [] = Inl IndexError"
  by (simp add: unpackBitsFromString_def getitem_def)

lemma unpack_take:
  "unpackBitsFromString (c # rest) = unpackBitsFromString (take (nat (ord c) + 1) (c # rest))"
proof (cases "ord c \<le> int (length rest)")
  case True
  then have len: "ord c \<le> int (length (take (nat (ord c)) rest))"
    by simp
  have "map (\<lambda>j. bit ((c # take (nat (ord c)) rest) ! (1 + j div 8)) (j mod 8)) [0..<8 * nat (ord c)]
      = map (\<lambda>j. bit ((c # rest) ! (1 + j div 8)) (j mod 8)) [0..<8 * nat (ord c)]"
    by (rule map_cong) (simp_all add: less_mult_imp_div_less mult.commute)
  then show ?thesis
    by (simp add: unpack_enough_bytes [OF True] unpack_enough_bytes [OF len])
next
  case False
  then show ?thesis by simp
qed

text \<open>
  Claim C7 (unpack returns all bits): for a frame whose first byte is \<open>N\<close> and which
  holds at least \<open>N + 1\<close> bytes, \<^const>\<open>unpackBitsFromString\<close> returns \<open>N\<close> and
  a list of exactly \<open>8 * N\<close> booleans, element \<open>j\<close> being bit \<open>j mod 8\<close> of frame
  byte \<open>1 + j div 8\<close>; padding bits are returned like the others.
\<close>

theorem unpack_returns_all_bits:
  assumes "ord c + 1 \<le> int (length (c # rest))"
  shows "unpackBitsFromString (c # rest) =
         Inr (map (\<lambda>j. bit ((c # rest) ! (1 + j div 8)) (j mod 8)) [0..<8 * nat (ord c)], ord c)"
  using assms by (intro unpack_enough_bytes) simp

theorem unpack_returns_all_bits_witness:
  "ord 1 + 1 \<le> int (length [1, 5, 9 :: byte])
   \<and> unpackBitsFromString [1, 5, 9] =
       Inr ([True, False, True, False, False, False, False, False], 1)"
  using unpack_returns_all_bits [of 1 "[5, 9]"] by (simp add: ord_def upt_rec)

text \<open>
  Claim C4 (unpack error conditions): \<^const>\<open>unpackBitsFromString\<close> fails on a
  zero-length frame, and fails when the count in byte 0 exceeds the number of bytes
  that follow it (fewer than \<open>N + 1\<close> bytes in all), as on \<^verbatim>\<open>[0x03, 0x01]\<close>. Both
  failures are Python's \<^verbatim>\<open>IndexError\<close>, raised by the string subscript: the first
  by \<^verbatim>\<open>string[0]\<close>, the second by \<^verbatim>\<open>string[byte]\<close> inside the loop.
\<close>

theorem unpack_error_conditions:
  "unpackBitsFromString [] = Inl IndexError
   \<and> (int (length (c # rest)) < ord c + 1 \<longrightarrow> unpackBitsFromString (c # rest) = Inl IndexError)
   \<and> unpackBitsFromString [0x03, 0x01] = Inl IndexError"
proof -
  have "unpackBitsFromString [0x03, 0x01] = Inl IndexError"
    by (rule unpack_too_short) (simp add: ord_def)
  then show ?thesis
    by (simp add: unpack_empty unpack_too_short)
qed

theorem unpack_error_conditions_witness:
  "int (length [0x05, 0x01, 0x02 :: byte]) < ord 0x05 + 1
   \<and> unpackBitsFromString [0x05, 0x01, 0x02] = Inl IndexError"
  using unpack_error_conditions [of "0x05" "[0x01, 0x02]"] by (simp add: ord_def)

text \<open>
  Claim C10 (unpack ignores trailing bytes): the result on a frame is the result on
  its first \<open>N + 1\<close> bytes, \<open>N\<close> being the count in byte 0; so two frames that agree
  on these bytes give the same result.
\<close>

theorem unpack_ignores_trailing_bytes:
  "unpackBitsFromString (c # rest) = unpackBitsFromString (take (nat (ord c) + 1) (c # rest))
   \<and> (take (nat (ord c) + 1) frame' = take (nat (ord c) + 1) (c # rest) \<longrightarrow>
        unpackBitsFromString frame' = unpackBitsFromString (c # rest))"
proof -
  have "unpackBitsFromString frame' = unpackBitsFromString (c # rest)"
    if eq: "take (nat (ord c) + 1) frame' = take (nat (ord c) + 1) (c # rest)"
  proof -
    from eq obtain rest' where f: "frame' = c # rest'"
      by (cases frame') auto
    have "unpackBitsFromString frame' = unpackBitsFromString (take (nat (ord c) + 1) frame')"
      unfolding f by (rule unpack_take)
    also have "\<dots> = unpackBitsFromString (c # rest)"
      unfolding eq by (rule unpack_take [symmetric])
    finally show ?thesis .
  qed
  then show ?thesis
    using unpack_take [of c rest] by blast
qed

theorem unpack_ignores_trailing_bytes_witness:
  "take (nat (ord 1) + 1) [1, 5, 200 :: byte] = take (nat (ord 1) + 1) [1, 5, 9, 7]
   \<and> unpackBitsFromString [1, 5, 200] = unpackBitsFromString [1, 5, 9, 7]
   \<and> unpackBitsFromString [1, 5, 9, 7] = unpackBitsFromString [1, 5]"
  using unpack_ignores_trailing_bytes [of 1 "[5, 9, 7]" "[1, 5, 200]"] by (simp add: ord_def)

section \<open>Packing\<close>

lemma packBitsToString_finish: "packBitsToString bits = pack_finish (pack_loop bits [] 0 0)"
  by (simp add: packBitsToString_def pack_finish_def)

lemma group_value_snoc:
  "group_value (xs @ [b]) = group_value xs + (if b then 2 ^ length xs else 0)"
  by (induction xs) simp_all

lemma group_value_range: "0 \<le> group_value xs \<and> group_value xs < 2 ^ length xs"
  by (induction xs) auto

lemma bit_group_value: "bit (group_value xs) n = (n < length xs \<and> xs ! n)"
proof (induction xs arbitrary: n)
  case Nil
  show ?case by simp
next
  case (Cons b xs)
  show ?case
  proof (cases n)
    case 0
    then show ?thesis by (simp add: bit_0)
  next
    case (Suc m)
    have "bit (group_value (b # xs)) (Suc m) = bit (group_value (b # xs) div 2) m"
      by (rule bit_Suc)
    also have "group_value (b # xs) div 2 = group_value xs"
      by simp
    finally show ?thesis
      using Suc Cons.IH [of m] by simp
  qed
qed

lemma chr_group_value:
  "length xs \<le> 8 \<Longrightarrow> chr (group_value xs) = Inr (word_of_int (group_value xs))"
proof -
  assume "length xs \<le> 8"
  then have "(2::int) ^ length xs \<le> 2 ^ 8"
    by (intro power_increasing) simp_all
  then show ?thesis
    using group_value_range [of xs] by (simp add: chr_def)
qed

lemma packed_bytes_Nil: "packed_bytes [] = []"
  by (simp add: packed_bytes.simps)

lemma packed_bytes_short:
  "xs \<noteq> [] \<Longrightarrow> length xs \<le> 8 \<Longrightarrow> packed_bytes xs = [word_of_int (group_value xs)]"
  by (subst packed_bytes.simps) (simp add: packed_bytes_Nil)

lemma packed_bytes_full:
  "length xs = 8 \<Longrightarrow> packed_bytes (xs @ ys) = word_of_int (group_value xs) # packed_bytes ys"
  by (subst packed_bytes.simps) auto


lemma pack_finish_pending:
  assumes "length pend < 8"
  shows "pack_finish (Inr (ret, int (length pend), group_value pend * 2 ^ (7 - length pend)))
         = Inr (ret @ packed_bytes pend)"
proof (cases "pend = []")
  case True
  then show ?thesis
    by (simp add: pack_finish_def packed_bytes_Nil)
next
  case False
  have sh: "drop_bit (nat (7 - int (length pend))) (group_value pend * 2 ^ (7 - length pend))
            = group_value pend"
    using assms by (simp add: drop_bit_eq_div nat_diff_distrib)
  have "chr (group_value pend) = Inr (word_of_int (group_value pend))"
    using assms by (intro chr_group_value) simp
  then show ?thesis
    using False assms by (simp add: pack_finish_def sh packed_bytes_short)
qed

lemma pack_loop_pending:
  "length pend < 8 \<Longrightarrow>
   pack_finish (pack_loop bits ret (int (length pend)) (group_value pend * 2 ^ (7 - length pend)))
   = Inr (ret @ packed_bytes (pend @ bits))"
proof (induction bits arbitrary: ret pend)
  case Nil
  then show ?case
    by (simp add: pack_finish_pending)
next
  case (Cons b bits)
  let ?k = "length pend"
  let ?packed = "group_value pend * 2 ^ (7 - ?k) + (if b then 128 else 0)"
  show ?case
  proof (cases "?k = 7")
    case True
    then have full: "length (pend @ [b]) = 8"
      by simp
    have val: "?packed = group_value (pend @ [b])"
      using True by (simp add: group_value_snoc)
    have c: "chr ?packed = Inr (word_of_int (group_value (pend @ [b])))"
      unfolding val using full by (intro chr_group_value) simp
    have "pack_loop (b # bits) ret (int ?k) (group_value pend * 2 ^ (7 - ?k))
          = pack_loop bits (ret @ [word_of_int (group_value (pend @ [b]))]) 0 0"
      using True c by (auto simp: Let_def)
    moreover have "pack_finish (pack_loop bits (ret @ [word_of_int (group_value (pend @ [b]))])
                     (int (length ([]::bool list))) (group_value [] * 2 ^ (7 - length ([]::bool list))))
          = Inr ((ret @ [word_of_int (group_value (pend @ [b]))]) @ packed_bytes ([] @ bits))"
      by (rule Cons.IH) simp
    moreover have "packed_bytes (pend @ b # bits)
          = word_of_int (group_value (pend @ [b])) # packed_bytes bits"
      using packed_bytes_full [OF full, of bits] by simp
    ultimately show ?thesis
      by simp
  next
    case False
    with Cons.prems have k: "?k < 7"
      by simp
    then have p: "(2::int) ^ (7 - ?k) = 2 * 2 ^ (6 - ?k)"
      by (simp add: power_Suc [symmetric] Suc_diff_le del: power_Suc)
    have q: "(2::int) ^ ?k * 2 ^ (6 - ?k) = 64"
      using k by (simp add: power_add [symmetric])
    have half: "drop_bit 1 ?packed = group_value (pend @ [b]) * 2 ^ (7 - length (pend @ [b]))"
      using q by (simp add: drop_bit_eq_div p group_value_snoc distrib_right)
    have "pack_loop (b # bits) ret (int ?k) (group_value pend * 2 ^ (7 - ?k))
          = pack_loop bits ret (int (length (pend @ [b])))
              (group_value (pend @ [b]) * 2 ^ (7 - length (pend @ [b])))"
    proof -
      have "pack_loop (b # bits) ret (int ?k) (group_value pend * 2 ^ (7 - ?k))
            = pack_loop bits ret (int ?k + 1) (drop_bit 1 ?packed)"
        using k by (simp add: Let_def)
      moreover have "int ?k + 1 = int (length (pend @ [b]))"
        by simp
      ultimately show ?thesis
        by (simp only: half)
    qed
    moreover have "pack_finish (pack_loop bits ret (int (length (pend @ [b])))
              (group_value (pend @ [b]) * 2 ^ (7 - length (pend @ [b]))))
          = Inr (ret @ packed_bytes ((pend @ [b]) @ bits))"
      using k by (intro Cons.IH) simp
    ultimately show ?thesis
      by simp
  qed
qed

lemma packBitsToString_eq: "packBitsToString bits = Inr (packed_bytes bits)"
  using pack_loop_pending [of "[]" bits "[]"] by (simp add: packBitsToString_finish)


lemma ceil_div8_step:
  assumes "0 < (n::nat)"
  shows "Suc ((n - 8 + 7) div 8) = (n + 7) div 8"
proof (cases "8 \<le> n")
  case True
  then obtain m where m: "n = m + 8"
    using le_Suc_ex [of 8 n] by (auto simp: add.commute)
  have "(m + 7 + 8) div 8 = Suc ((m + 7) div 8)"
    by (simp only: div_add_self2)
  then show ?thesis
    by (simp add: m add.commute add.left_commute)
next
  case False
  then have "n - 8 + 7 = 7" "(n + 7) div 8 = 1"
    using assms by simp_all
  then show ?thesis
    by simp
qed

lemma length_packed_bytes: "length (packed_bytes bits) = (length bits + 7) div 8"
proof (induction bits rule: packed_bytes.induct)
  case (1 bits)
  show ?case
  proof (cases "bits = []")
    case True
    then show ?thesis by (simp add: packed_bytes_Nil)
  next
    case False
    then have "length (packed_bytes bits) = Suc ((length (drop 8 bits) + 7) div 8)"
      using "1.IH" by (subst packed_bytes.simps) simp
    moreover have "0 < length bits"
      using False by simp
    then have "Suc ((length bits - 8 + 7) div 8) = (length bits + 7) div 8"
      by (rule ceil_div8_step)
    ultimately show ?thesis
      by simp
  qed
qed

lemma bit_group_byte:
  "bit (word_of_int (group_value xs) :: byte) n = (n < 8 \<and> n < length xs \<and> xs ! n)"
  by (simp add: bit_word_of_int_iff bit_group_value)

lemma bit_packed_bytes:
  "i div 8 < length (packed_bytes bits) \<Longrightarrow>
   bit (packed_bytes bits ! (i div 8)) (i mod 8) = (i < length bits \<and> bits ! i)"
proof (induction bits arbitrary: i rule: packed_bytes.induct)
  case (1 bits)
  show ?case
  proof (cases "bits = []")
    case True
    with "1.prems" show ?thesis by (simp add: packed_bytes_Nil)
  next
    case False
    then have unf: "packed_bytes bits =
        word_of_int (group_value (take 8 bits)) # packed_bytes (drop 8 bits)"
      by (subst packed_bytes.simps) simp
    show ?thesis
    proof (cases "i < 8")
      case True
      then show ?thesis
        by (simp add: unf bit_group_byte)
    next
      case False
      then obtain j where j: "i = j + 8"
        using le_Suc_ex [of 8 i] by (auto simp: add.commute)
      have "j div 8 < length (packed_bytes (drop 8 bits))"
        using "1.prems" by (simp add: unf j)
      then have "bit (packed_bytes (drop 8 bits) ! (j div 8)) (j mod 8)
                 = (j < length (drop 8 bits) \<and> drop 8 bits ! j)"
        using \<open>bits \<noteq> []\<close> by (intro "1.IH") simp_all
      moreover have "(j + 8) div 8 = Suc (j div 8)" "(j + 8) mod 8 = j mod 8"
        by simp_all
      moreover have "(j < length (drop 8 bits) \<and> drop 8 bits ! j)
                     = (j + 8 < length bits \<and> bits ! (j + 8))"
        by (cases "8 \<le> length bits") (auto simp: add.commute)
      ultimately show ?thesis
        by (simp only: j unf nth_Cons_Suc)
    qed
  qed
qed

text \<open>
  Claim C6 (bit layout of the packed data bytes): \<^const>\<open>packBitsToString\<close> returns
  bytes such that, for every \<open>i < len(bits)\<close>, bit \<open>i mod 8\<close> of byte \<open>i div 8\<close>
  is \<open>bits[i]\<close>; the positions of the last byte beyond the last bit are zero. The
  bytes returned are the data bytes: byte \<open>i div 8\<close> is counted from the start of
  the output.
\<close>

theorem pack_bit_layout:
  "\<exists>ret. packBitsToString bits = Inr ret
     \<and> (\<forall>i < length bits. i div 8 < length ret \<and> bit (ret ! (i div 8)) (i mod 8) = bits ! i)
     \<and> (\<forall>i. length bits \<le> i \<and> i < 8 * length ret \<longrightarrow> \<not> bit (ret ! (i div 8)) (i mod 8))"
proof -
  have in_range: "i div 8 < length (packed_bytes bits)" if "i < length bits" for i
    using that by (simp add: length_packed_bytes)
  have "\<forall>i < length bits. i div 8 < length (packed_bytes bits)
          \<and> bit (packed_bytes bits ! (i div 8)) (i mod 8) = bits ! i"
    using in_range by (simp add: bit_packed_bytes)
  moreover have "\<forall>i. length bits \<le> i \<and> i < 8 * length (packed_bytes bits)
          \<longrightarrow> \<not> bit (packed_bytes bits ! (i div 8)) (i mod 8)"
    by (simp add: bit_packed_bytes less_mult_imp_div_less mult.commute)
  ultimately show ?thesis
    using packBitsToString_eq [of bits] by blast
qed

lemma pack_example_11:
  "packBitsToString [True, False, True, True, False, False, False, False, True, True, True]
     = Inr [0x0D, 0x07]"
  by (simp add: packBitsToString_def chr_def Let_def)

theorem pack_bit_layout_witness:
  "packBitsToString [True, False, True, True, False, False, False, False, True, True, True]
     = Inr [0x0D, 0x07]
   \<and> (9::nat) < length [True, False, True, True, False, False, False, False, True, True, True]
   \<and> bit ([0x0D, 0x07 :: byte] ! (9 div 8)) (9 mod 8)
       = [True, False, True, True, False, False, False, False, True, True, True] ! 9
   \<and> length [True, False, True, True, False, False, False, False, True, True, True] \<le> (12::nat)
   \<and> (12::nat) < 8 * length [0x0D, 0x07 :: byte]
   \<and> \<not> bit ([0x0D, 0x07 :: byte] ! (12 div 8)) (12 mod 8)"
  using pack_bit_layout [of "[True, False, True, True, False, False, False, False, True, True, True]"]
    pack_example_11
  by auto

text \<open>
  Claim C2 (count prefix): the output of \<^const>\<open>packBitsToString\<close> should start with
  the count \<open>N = ceil(len(bits)/8)\<close> of the data bytes that follow, and be \<open>N + 1\<close>
  bytes long. The function returns the data bytes alone: eight set bits give the one
  byte \<^verbatim>\<open>0xFF\<close>, not the two bytes \<^verbatim>\<open>01 FF\<close>.
\<close>

theorem pack_no_count_prefix_counterexample:
  "packBitsToString [True, True, True, True, True, True, True, True] = Inr [0xFF]
   \<and> length [0xFF :: byte] \<noteq> (length [True, True, True, True, True, True, True, True] + 7) div 8 + 1
   \<and> ord ([0xFF] ! 0) \<noteq> int ((length [True, True, True, True, True, True, True, True] + 7) div 8)"
  by (simp add: packBitsToString_def chr_def Let_def ord_def)

text \<open>
  Claim C2 as amended: for every list of booleans, \<^const>\<open>packBitsToString\<close> returns
  exactly \<open>N = ceil(len(bits)/8)\<close> bytes, all of them data bytes: bit \<open>i mod 8\<close> of
  output byte \<open>i div 8\<close> is \<open>bits[i]\<close> for every \<open>i < len(bits)\<close>, starting with
  output byte 0, and the remaining positions of the last byte are zero. The count is
  not part of its output.
\<close>

theorem pack_data_bytes_only:
  "\<exists>ret. packBitsToString bits = Inr ret
     \<and> length ret = (length bits + 7) div 8
     \<and> (\<forall>i < length bits. bit (ret ! (i div 8)) (i mod 8) = bits ! i)
     \<and> (\<forall>i. length bits \<le> i \<and> i < 8 * length ret \<longrightarrow> \<not> bit (ret ! (i div 8)) (i mod 8))"
proof -
  have len: "length (packed_bytes bits) = (length bits + 7) div 8"
    by (rule length_packed_bytes)
  have "bit (packed_bytes bits ! (i div 8)) (i mod 8) = bits ! i" if "i < length bits" for i
  proof -
    have "i div 8 < length (packed_bytes bits)"
      using that by (simp add: len)
    then show ?thesis
      using that by (simp add: bit_packed_bytes)
  qed
  moreover have "\<not> bit (packed_bytes bits ! (i div 8)) (i mod 8)"
    if "length bits \<le> i \<and> i < 8 * length (packed_bytes bits)" for i
  proof -
    have "i div 8 < length (packed_bytes bits)"
      using that by (simp add: less_mult_imp_div_less mult.commute)
    then show ?thesis
      using that by (simp add: bit_packed_bytes)
  qed
  ultimately show ?thesis
    using packBitsToString_eq [of bits] len by blast
qed

lemma pack_example_9:
  "packBitsToString [True, True, True, True, True, True, True, True, True] = Inr [0xFF, 0x01]"
  by (simp add: packBitsToString_def chr_def Let_def)

theorem pack_data_bytes_only_witness:
  "packBitsToString [True, True, True, True, True, True, True, True, True] = Inr [0xFF, 0x01]
   \<and> length [0xFF, 0x01 :: byte]
       = (length [True, True, True, True, True, True, True, True, True] + 7) div 8
   \<and> (8::nat) < length [True, True, True, True, True, True, True, True, True]
   \<and> bit ([0xFF, 0x01 :: byte] ! (8 div 8)) (8 mod 8)
       = [True, True, True, True, True, True, True, True, True] ! 8
   \<and> length [True, True, True, True, True, True, True, True, True] \<le> (9::nat)
   \<and> (9::nat) < 8 * length [0xFF, 0x01 :: byte]
   \<and> \<not> bit ([0xFF, 0x01 :: byte] ! (9 div 8)) (9 mod 8)"
  using pack_data_bytes_only [of "[True, True, True, True, True, True, True, True, True]"]
    pack_example_9
  by auto

section \<open>Packing, then unpacking\<close>

text \<open>
  Claim C1 (round trip): \<^verbatim>\<open>unpackBitsFromString(packBitsToString(bits))\<close> should be
  \<^verbatim>\<open>(bits, len(bits)/8)\<close> when the length is a multiple of 8. On 16 bits packed
  as \<^verbatim>\<open>01 03\<close> the unpacking reads the first data byte as the count and returns
  the 8 bits of the second, with the count 1.
\<close>

theorem round_trip_counterexample:
  "packBitsToString [True, False, False, False, False, False, False, False,
                     True, True, False, False, False, False, False, False] = Inr [0x01, 0x03]
   \<and> unpackBitsFromString [0x01, 0x03]
       = Inr ([True, True, False, False, False, False, False, False], 1)
   \<and> unpackBitsFromString [0x01, 0x03]
       \<noteq> Inr ([True, False, False, False, False, False, False, False,
                True, True, False, False, False, False, False, False], 2)"
proof -
  have "packBitsToString [True, False, False, False, False, False, False, False,
                     True, True, False, False, False, False, False, False] = Inr [0x01, 0x03]"
    by (simp add: packBitsToString_def chr_def Let_def)
  moreover have "unpackBitsFromString [0x01, 0x03]
       = Inr ([True, True, False, False, False, False, False, False], 1)"
    using unpack_enough_bytes [of 1 "[3]"] by (simp add: ord_def upt_rec)
  ultimately show ?thesis
    by simp
qed

text \<open>
  Claim C1 as amended: for every list of booleans whose length is \<open>8 * n\<close> with
  \<open>n < 256\<close>, unpacking the character \<^verbatim>\<open>chr(n)\<close> followed by the packed bytes
  returns \<^verbatim>\<open>(bits, n)\<close>.
\<close>

theorem round_trip_with_count_prefix:
  assumes "length bits = 8 * n" and "n < 256"
  shows "\<exists>ret c. packBitsToString bits = Inr ret \<and> chr (int n) = Inr c
           \<and> unpackBitsFromString (c # ret) = Inr (bits, int n)"
proof -
  let ?ret = "packed_bytes bits"
  let ?c = "word_of_int (int n) :: byte"
  have len: "length ?ret = n"
    using assms(1) by (simp add: length_packed_bytes)
  have c: "chr (int n) = Inr ?c"
    using assms(2) by (simp add: chr_def)
  have "uint ?c = int n"
    using assms(2) by (simp add: unsigned_of_nat take_bit_nat_eq_self)
  then have ord_c: "ord ?c = int n"
    by (simp add: ord_def)
  have bits: "map (\<lambda>j. bit ((?c # ?ret) ! (1 + j div 8)) (j mod 8)) [0..<8 * n] = bits"
  proof -
    have "map (\<lambda>j. bit ((?c # ?ret) ! (1 + j div 8)) (j mod 8)) [0..<8 * n]
          = map (\<lambda>j. bits ! j) [0..<length bits]"
      unfolding assms(1)
      by (rule map_cong)
         (simp_all add: bit_packed_bytes len less_mult_imp_div_less mult.commute assms(1))
    also have "\<dots> = bits"
      by (rule map_nth)
    finally show ?thesis .
  qed
  have "unpackBitsFromString (?c # ?ret) =
        Inr (map (\<lambda>j. bit ((?c # ?ret) ! (1 + j div 8)) (j mod 8)) [0..<8 * nat (ord ?c)], ord ?c)"
    using ord_c len by (intro unpack_enough_bytes) linarith
  then have "unpackBitsFromString (?c # ?ret) = Inr (bits, int n)"
    by (simp only: ord_c nat_int bits)
  then show ?thesis
    using c packBitsToString_eq [of bits] by blast
qed

theorem round_trip_with_count_prefix_witness:
  "length [True, False, False, False, False, False, False, False,
           True, True, False, False, False, False, False, False] = 8 * 2
   \<and> (2::nat) < 256
   \<and> packBitsToString [True, False, False, False, False, False, False, False,
                       True, True, False, False, False, False, False, False] = Inr [0x01, 0x03]
   \<and> chr (int 2) = Inr 0x02
   \<and> unpackBitsFromString [0x02, 0x01, 0x03]
       = Inr ([True, False, False, False, False, False, False, False,
               True, True, False, False, False, False, False, False], int 2)"
  using round_trip_with_count_prefix [of "[True, False, False, False, False, False, False, False,
           True, True, False, False, False, False, False, False]" 2]
  by (auto simp: packBitsToString_def chr_def Let_def)

section \<open>Checksums: LRC\<close>

lemma and_0xff_eq_mod: "(x::int) AND 0xff = x mod 256"
proof -
  have "x AND mask 8 = take_bit 8 x"
    by (simp add: take_bit_eq_mask)
  then show ?thesis
    by (simp add: take_bit_eq_mod mask_eq_exp_minus_1)
qed

lemma xor_0xff_complement: "(x::int) mod 256 XOR 0xff = 255 - x mod 256"
proof -
  have "take_bit 8 x XOR mask 8 = take_bit 8 (NOT x)"
    by (rule bit_eqI) (auto simp: bit_simps)
  also have "\<dots> = mask 8 - take_bit 8 x"
    by (rule take_bit_not_eq_mask_diff)
  finally show ?thesis
    by (simp add: take_bit_eq_mod mask_eq_exp_minus_1)
qed

text \<open>
  What \<^const>\<open>computeLRC\<close> returns: the complement of the sum is incremented after the
  mask, so the result lies in 1..256, and is 256 where the sum is a multiple of 256.
\<close>

lemma computeLRC_eq: "computeLRC data = 256 - sum_list (map ord data) mod 256"
  by (simp add: computeLRC_def and_0xff_eq_mod xor_0xff_complement)

lemma computeLRC_range: "1 \<le> computeLRC data \<and> computeLRC data \<le> 256"
proof -
  have "0 \<le> sum_list (map ord data) mod 256" "sum_list (map ord data) mod 256 < 256"
    by simp_all
  then show ?thesis
    unfolding computeLRC_eq by linarith
qed

lemma computeLRC_known_vector: "computeLRC [0x01, 0x03, 0x00, 0x00, 0x00, 0x0A] = 0xF2"
  by (simp add: computeLRC_eq ord_def)

text \<open>
  Claim C3 (LRC definition): \<^verbatim>\<open>computeLRC(data)\<close> should be
  \<^verbatim>\<open>(256 - sum mod 256) mod 256\<close>, an unsigned 8-bit value, and 0 on the empty
  sequence. On the empty sequence the code returns 256, which is not an 8-bit value:
  the increment after the complement is not truncated.
\<close>

theorem computeLRC_empty_is_256:
  "computeLRC [] = 256 \<and> computeLRC [] \<noteq> (256 - sum_list (map ord []) mod 256) mod 256"
  by (simp add: computeLRC_def)

section \<open>Checksums: CRC16\<close>

subsection \<open>The shift step is linear over XOR\<close>


lemma low_bit_set_iff: "((x::int) AND 1 \<noteq> 0) = odd x"
  by (simp add: and_one_eq odd_iff_mod_2_eq_one)

lemma crc16_shift_xor: "crc16_shift (x XOR y) = crc16_shift x XOR crc16_shift y"
  by (simp add: crc16_shift_def low_bit_set_iff even_xor_iff drop_bit_xor xor.assoc xor.commute xor.left_commute)

lemma crc16_shift_funpow_xor:
  "(crc16_shift ^^ n) (x XOR y) = (crc16_shift ^^ n) x XOR (crc16_shift ^^ n) y"
  by (induction n) (simp_all add: crc16_shift_xor)

lemma crc16_shift_push_bit: "crc16_shift (push_bit (Suc n) y) = push_bit n y"
proof -
  have e: "even (push_bit (Suc n) y)"
    by simp
  have d: "drop_bit 1 (push_bit (Suc n) y) = push_bit n y"
    by (simp add: push_bit_eq_mult drop_bit_eq_div)
  show ?thesis
    by (simp only: crc16_shift_def low_bit_set_iff e d simp_thms if_False)
qed

lemma crc16_shift_funpow_push_bit: "(crc16_shift ^^ n) (push_bit n y) = y"
proof (induction n)
  case 0
  show ?case by simp
next
  case (Suc n)
  have "(crc16_shift ^^ Suc n) (push_bit (Suc n) y) = (crc16_shift ^^ n) (crc16_shift (push_bit (Suc n) y))"
    by (simp only: funpow_Suc_right comp_apply)
  then show ?case
    using Suc by (simp only: crc16_shift_push_bit)
qed

lemma split_low_byte: "(x::int) = (x AND 0xff) XOR push_bit 8 (drop_bit 8 x)"
proof -
  have "x = take_bit 8 x XOR push_bit 8 (drop_bit 8 x)"
    by (rule bit_eqI) (auto simp: bit_simps)
  then show ?thesis
    by (simp add: take_bit_eq_mask mask_eq_exp_minus_1)
qed

lemma crc16_shift8_split:
  "(crc16_shift ^^ 8) x = (crc16_shift ^^ 8) (x AND 0xff) XOR drop_bit 8 x"
proof -
  have "(crc16_shift ^^ 8) x = (crc16_shift ^^ 8) ((x AND 0xff) XOR push_bit 8 (drop_bit 8 x))"
    by (rule arg_cong [OF split_low_byte])
  also have "\<dots> = (crc16_shift ^^ 8) (x AND 0xff) XOR (crc16_shift ^^ 8) (push_bit 8 (drop_bit 8 x))"
    by (rule crc16_shift_funpow_xor)
  finally show ?thesis
    by (simp only: crc16_shift_funpow_push_bit)
qed

lemma crc16_entry_loop_eq:
  "crc16_entry_loop n byte crc = (crc16_shift ^^ n) (byte XOR crc) XOR drop_bit n byte"
proof (induction n arbitrary: byte crc)
  case 0
  show ?case by (simp add: xor.assoc xor.left_commute xor.commute)
next
  case (Suc n)
  have step: "drop_bit 1 byte XOR
      (if (byte XOR crc) AND 1 \<noteq> 0 then drop_bit 1 crc XOR 0xa001 else drop_bit 1 crc)
      = crc16_shift (byte XOR crc)"
    by (simp add: crc16_shift_def drop_bit_xor xor.assoc)
  have "crc16_entry_loop (Suc n) byte crc =
      (crc16_shift ^^ n) (crc16_shift (byte XOR crc)) XOR drop_bit n (drop_bit 1 byte)"
    by (simp only: crc16_entry_loop.simps Let_def Suc.IH step)
  then show ?case
    by (simp add: funpow_swap1)
qed


lemma fold_append_map: "fold (\<lambda>b r. r @ [f b]) xs acc = acc @ map f xs"
  by (induction xs arbitrary: acc) simp_all

lemma generate_crc16_table_eq:
  "generate_crc16_table = map (\<lambda>byte. crc16_entry_loop 8 byte 0) [0..255]"
  by (simp only: generate_crc16_table_def fold_append_map append_Nil)

lemma length_crc16_table: "length crc16_table = 256"
  by (simp add: crc16_table_def generate_crc16_table_eq)

lemma ord_range: "0 \<le> ord a \<and> ord a < 256"
proof -
  have "uint a < 2 ^ LENGTH(8)"
    by (rule uint_lt2p)
  then show ?thesis
    by (simp add: ord_def)
qed

lemma drop_bit_8_small: "0 \<le> (i::int) \<Longrightarrow> i < 256 \<Longrightarrow> drop_bit 8 i = 0"
  by (simp add: drop_bit_eq_div)

lemma crc16_table_nth:
  assumes "0 \<le> i" and "i < 256"
  shows "crc16_table ! nat i = (crc16_shift ^^ 8) i"
proof -
  have len: "nat i < length [0..255]"
    using assms by simp
  have "[0..255] ! nat i = 0 + int (nat i)"
    using assms by (intro nth_upto) simp
  then have idx: "[0..255] ! nat i = i"
    using assms by simp
  have "crc16_table ! nat i = crc16_entry_loop 8 i 0"
    unfolding crc16_table_def generate_crc16_table_eq
    using len by (simp only: nth_map idx)
  also have "\<dots> = (crc16_shift ^^ 8) i"
    by (simp only: crc16_entry_loop_eq drop_bit_8_small [OF assms]) simp
  finally show ?thesis .
qed

lemma table_index_range: "0 \<le> (x::int) AND 0xff \<and> x AND 0xff < 256"
  by (simp add: and_0xff_eq_mod)

lemma crc16_shift_range:
  assumes "0 \<le> x" and "x < 2 ^ 16"
  shows "0 \<le> crc16_shift x \<and> crc16_shift x < 2 ^ 16"
proof -
  have d0: "0 \<le> drop_bit 1 x"
    using assms by simp
  have d1: "drop_bit 1 x < 2 ^ 16"
    using assms by (simp add: drop_bit_eq_div)
  have "drop_bit 1 x XOR 0xA001 < 2 ^ 16"
    using d0 d1 by (intro XOR_upper) simp_all
  moreover have "0 \<le> drop_bit 1 x XOR 0xA001"
    using d0 by simp
  ultimately show ?thesis
    using d0 d1 by (simp add: crc16_shift_def)
qed

lemma crc16_shift_funpow_range:
  "0 \<le> x \<Longrightarrow> x < 2 ^ 16 \<Longrightarrow> 0 \<le> (crc16_shift ^^ n) x \<and> (crc16_shift ^^ n) x < 2 ^ 16"
proof (induction n)
  case 0
  then show ?case by simp
next
  case (Suc n)
  then have "0 \<le> (crc16_shift ^^ n) x" "(crc16_shift ^^ n) x < 2 ^ 16"
    by simp_all
  then show ?case
    using crc16_shift_range [of "(crc16_shift ^^ n) x"] by simp
qed

lemma crc16_table_entry_range:
  assumes "0 \<le> i" and "i < 256"
  shows "0 \<le> crc16_table ! nat i \<and> crc16_table ! nat i < 2 ^ 16"
proof -
  have "i < 2 ^ 16"
    using assms by simp
  then show ?thesis
    using crc16_shift_funpow_range [of i 8] assms by (simp only: crc16_table_nth)
qed

lemma crc_step_range: "0 \<le> crc_step crc a \<and> crc_step crc a < 2 ^ 16"
proof -
  let ?i = "(crc XOR ord a) AND 0xff"
  have t: "0 \<le> crc16_table ! nat ?i" "crc16_table ! nat ?i < 2 ^ 16"
    using crc16_table_entry_range [of ?i] table_index_range [of "crc XOR ord a"] by simp_all
  have h: "0 \<le> drop_bit 8 crc AND 0xff" "drop_bit 8 crc AND 0xff < 2 ^ 16"
    using table_index_range [of "drop_bit 8 crc"] by simp_all
  have "(drop_bit 8 crc AND 0xff) XOR crc16_table ! nat ?i < 2 ^ 16"
    using h t by (intro XOR_upper)
  moreover have "0 \<le> (drop_bit 8 crc AND 0xff) XOR crc16_table ! nat ?i"
    using h t by (intro XOR_lower)
  ultimately show ?thesis
    by (simp only: crc_step_def)
qed

lemma crc_step_eq_bitwise:
  assumes "0 \<le> crc" and "crc < 2 ^ 16"
  shows "crc_step crc a = (crc16_shift ^^ 8) (crc XOR ord a)"
proof -
  let ?i = "(crc XOR ord a) AND 0xff"
  have hi: "drop_bit 8 crc AND 0xff = drop_bit 8 crc"
    using assms by (simp add: and_0xff_eq_mod drop_bit_eq_div)
  have lo: "drop_bit 8 (ord a) = 0"
    using ord_range [of a] by (simp add: drop_bit_8_small)
  have "(crc16_shift ^^ 8) (crc XOR ord a) = (crc16_shift ^^ 8) ?i XOR drop_bit 8 (crc XOR ord a)"
    by (rule crc16_shift8_split)
  also have "drop_bit 8 (crc XOR ord a) = drop_bit 8 crc"
    by (simp add: drop_bit_xor lo)
  also have "(crc16_shift ^^ 8) ?i = crc16_table ! nat ?i"
    using table_index_range [of "crc XOR ord a"] by (simp only: crc16_table_nth)
  finally show ?thesis
    by (simp only: crc_step_def hi xor.commute)
qed

lemma crc_loop_step: "crc_loop (a # data) crc = crc_loop data (crc_step crc a)"
  by (simp add: crc_step_def)

lemma crc_loop_eq_bitwise:
  "0 \<le> crc \<Longrightarrow> crc < 2 ^ 16 \<Longrightarrow> crc_loop data crc = crc16_bitwise data crc"
proof (induction data arbitrary: crc)
  case Nil
  show ?case by simp
next
  case (Cons a data)
  have "crc_loop (a # data) crc = crc_loop data (crc_step crc a)"
    by (rule crc_loop_step)
  also have "\<dots> = crc16_bitwise data (crc_step crc a)"
    using crc_step_range [of crc a] by (intro Cons.IH) simp_all
  also have "\<dots> = crc16_bitwise (a # data) crc"
    using Cons.prems by (simp add: crc_step_eq_bitwise)
  finally show ?case .
qed

lemma crc_loop_range:
  "0 \<le> crc \<Longrightarrow> crc < 2 ^ 16 \<Longrightarrow> 0 \<le> crc_loop data crc \<and> crc_loop data crc < 2 ^ 16"
proof (induction data arbitrary: crc)
  case Nil
  then show ?case by simp
next
  case (Cons a data)
  show ?case
    unfolding crc_loop_step
    using crc_step_range [of crc a] by (intro Cons.IH) simp_all
qed

lemma computeCRC_eq_reference: "computeCRC data = crc16_reference data"
  unfolding computeCRC_def crc16_reference_def
  by (rule crc_loop_eq_bitwise) simp_all

subsection \<open>The table-driven CRC against the reference\<close>

lemma crc16_reference_known_vector:
  "crc16_reference [0x01, 0x03, 0x00, 0x00, 0x00, 0x0A] = 0xCDC5"
  by code_simp

text \<open>
  Claim C5 (CRC reference equivalence): for every byte sequence the table-driven
  \<^const>\<open>computeCRC\<close> equals the bit-by-bit reflected CRC-16 with polynomial
  \<^verbatim>\<open>0xA001\<close> and initial value \<^verbatim>\<open>0xFFFF\<close>; on the empty sequence it is
  \<^verbatim>\<open>0xFFFF\<close>, and on \<^verbatim>\<open>01 03 00 00 00 0A\<close> it is \<^verbatim>\<open>0xCDC5\<close>, the
  checksum of that request frame (sent low byte first, \<^verbatim>\<open>C5 CD\<close>).
\<close>

theorem computeCRC_refines_bitwise:
  "computeCRC data = crc16_reference data
   \<and> computeCRC [] = 0xFFFF
   \<and> computeCRC [0x01, 0x03, 0x00, 0x00, 0x00, 0x0A] = 0xCDC5"
proof -
  have "computeCRC [] = 0xFFFF"
    by (simp add: computeCRC_def)
  moreover have "computeCRC [0x01, 0x03, 0x00, 0x00, 0x00, 0x0A] = 0xCDC5"
    by (simp only: computeCRC_eq_reference crc16_reference_known_vector)
  ultimately show ?thesis
    by (simp only: computeCRC_eq_reference simp_thms)
qed

lemma generate_crc16_table_entries:
  assumes "e \<in> set generate_crc16_table"
  shows "0 \<le> e \<and> e < 0x10000"
proof -
  from assms obtain k where k: "k < 256" and e: "e = crc16_table ! k"
    using length_crc16_table by (auto simp: in_set_conv_nth crc16_table_def)
  have "0 \<le> crc16_table ! nat (int k) \<and> crc16_table ! nat (int k) < 2 ^ 16"
    using k by (intro crc16_table_entry_range) simp_all
  then show ?thesis
    using e by simp
qed

lemma crc16_shift8_of_1: "(crc16_shift ^^ 8) 1 = 0xC0C1"
  by code_simp

lemma table_has_C0C1: "0xC0C1 \<in> set generate_crc16_table"
proof -
  have "crc16_table ! nat 1 = 0xC0C1"
    by (simp only: crc16_table_nth crc16_shift8_of_1)
  moreover have "nat 1 < length crc16_table"
    by (simp add: length_crc16_table)
  ultimately show ?thesis
    unfolding crc16_table_def by (metis nth_mem)
qed

text \<open>
  Claim C9 (CRC 16-bit range): every entry of the generated table is an unsigned
  16-bit value, and so is the result of \<^const>\<open>computeCRC\<close> on every byte sequence.
\<close>

theorem crc16_values_are_16_bit:
  "(\<forall>e \<in> set generate_crc16_table. 0 \<le> e \<and> e < 0x10000)
   \<and> 0 \<le> computeCRC data \<and> computeCRC data < 0x10000"
proof -
  have "0 \<le> computeCRC data \<and> computeCRC data < 2 ^ 16"
    unfolding computeCRC_def by (rule crc_loop_range) simp_all
  then show ?thesis
    using generate_crc16_table_entries by simp
qed

theorem crc16_values_are_16_bit_witness:
  "0xC0C1 \<in> set generate_crc16_table \<and> (0::int) \<le> 0xC0C1 \<and> (0xC0C1::int) < 0x10000
   \<and> 0 \<le> computeCRC [0x01, 0x03] \<and> computeCRC [0x01, 0x03] < 0x10000"
  using crc16_values_are_16_bit [of "[0x01, 0x03]"] table_has_C0C1 by simp

section \<open>Checksums: consistency of the checks\<close>

text \<open>
  Claim C8 (check consistency): for every byte sequence \<^verbatim>\<open>data\<close>,
  \<^verbatim>\<open>checkCRC(data, computeCRC(data))\<close> and \<^verbatim>\<open>checkLRC(data, computeLRC(data))\<close>
  both return true.
\<close>

theorem check_consistency:
  "checkCRC data (computeCRC data) \<and> checkLRC data (computeLRC data)"
  by (simp add: checkCRC_def checkLRC_def)

end
